theory Spec2Isabelle
  imports Main
begin

section \<open>Data model\<close>

text \<open>
  The \<open>Todo\<close> interface declared by both components. The field \<open>id\<close> of the source is
  \<open>id_todo\<close> here, since \<open>id\<close> is the identity function of HOL.
\<close>

record Todo =
  userId :: int
  id_todo :: int
  title :: string
  completed :: bool

text \<open>
  The error object a rejected request carries (\<open>AxiosError\<close>, a JavaScript \<open>Error\<close>).
  The components read its \<open>message\<close> only; a message is any string.
\<close>

record AxiosError =
  message :: string

text \<open>
  How the promise of \<open>axios.get<Todo[]>(...)\<close> settles: fulfilled with a response, whose
  \<open>data\<close> both components destructure, or rejected with an error.
\<close>

datatype settled = Fulfilled "Todo list" | Rejected AxiosError

text \<open>The view states of the specification: what the renderer branches on.\<close>

datatype view_state = Loading | Success "Todo list" | Error string

fun is_Loading :: "view_state \<Rightarrow> bool" where
  "is_Loading Loading = True"
| "is_Loading _ = False"

fun is_Success :: "view_state \<Rightarrow> bool" where
  "is_Success (Success _) = True"
| "is_Success _ = False"

fun is_Error :: "view_state \<Rightarrow> bool" where
  "is_Error (Error _) = True"
| "is_Error _ = False"

text \<open>
  The JSX the components return. A child of an element is a string or a number; an entry
  of the rendered list is a \<open>div\<close> with its \<open>key\<close> and its children.
\<close>

datatype jsx_child = Text string | Num int

datatype vnode =
  Div "jsx_child list"
| Section string "(nat \<times> jsx_child list) list"

section \<open>The component UseEff\<close>

text \<open>The three \<open>useState\<close> cells of \<open>UseEff\<close>, with their initial values.\<close>

record UseEff_state =
  todos :: "Todo list"
  loading :: bool
  error :: "AxiosError option"

definition UseEff_init :: UseEff_state where
  "UseEff_init = \<lparr>todos = [], loading = True, error = None\<rparr>"

text \<open>A call of one of the three state setters; each replaces its cell by the value given.\<close>

datatype setter = setTodos "Todo list" | setLoading bool | setError "AxiosError option"

fun apply_setter :: "setter \<Rightarrow> UseEff_state \<Rightarrow> UseEff_state" where
  "apply_setter (setTodos d) s = s\<lparr>todos := d\<rparr>"
| "apply_setter (setLoading b) s = s\<lparr>loading := b\<rparr>"
| "apply_setter (setError e) s = s\<lparr>error := e\<rparr>"

text \<open>
  \<open>fetchTodos\<close> of \<open>UseEff\<close>, from the point where the awaited request settles. The
  \<open>try\<close> block stores the data and clears the loading flag; the \<open>catch\<close> block stores the
  error and clears the loading flag. The result is the promise of the \<open>async\<close> function:
  \<open>Inr\<close> with the setter calls it made, in order, when it fulfils, \<open>Inl\<close> when it rejects.
\<close>

definition UseEff_fetchTodos :: "settled \<Rightarrow> AxiosError + setter list" where
  "UseEff_fetchTodos r =
     (case r of
        Fulfilled data \<Rightarrow> Inr [setTodos data, setLoading False]
      | Rejected err \<Rightarrow> Inr [setError (Some err), setLoading False])"

text \<open>
  The branch the body of \<open>UseEff\<close> takes: \<open>if (loading)\<close> first, \<open>if (error)\<close> second (an
  error object is truthy, \<open>null\<close> is not), the list last.
\<close>

definition UseEff_view :: "UseEff_state \<Rightarrow> view_state" where
  "UseEff_view s =
     (if loading s then Loading
      else case error s of
             Some e \<Rightarrow> Error (message e)
           | None \<Rightarrow> Success (todos s))"

text \<open>
  What \<open>UseEff\<close> returns. \<open>todos.map((item, id) => ...)\<close> passes each item with its index,
  and the index is the \<open>key\<close> of the entry.
\<close>

definition UseEff :: "UseEff_state \<Rightarrow> vnode" where
  "UseEff s =
     (if loading s then Div [Text ''Loading...'']
      else case error s of
             Some e \<Rightarrow> Div [Text (message e)]
           | None \<Rightarrow>
               Section ''useEffect() vs React Query''
                 (map (\<lambda>(id, item). (id, [Text (title item)])) (enumerate 0 (todos s))))"

section \<open>The component RQuery\<close>

text \<open>
  \<open>fetchTodos\<close> of \<open>RQuery\<close> has no \<open>try\<close>: it returns the data of a fulfilled request, and a
  rejection leaves it as the rejection of its own promise.
\<close>

definition RQuery_fetchTodos :: "settled \<Rightarrow> AxiosError + Todo list" where
  "RQuery_fetchTodos r = (case r of Fulfilled data \<Rightarrow> Inr data | Rejected err \<Rightarrow> Inl err)"

text \<open>
  The three fields \<open>RQuery\<close> takes from the result of \<open>useQuery\<close>; the field \<open>error\<close> of
  the source is \<open>error_q\<close> here.
\<close>

record query_result =
  data :: "Todo list option"
  error_q :: "AxiosError option"
  isLoading :: bool

text \<open>
  Modelled from the spec: \<open>useQuery\<close> of the fetching library, which is not part of the
  repository. Section 6 of the specification gives its contract,
  \<open>query(key, fetchFunction, options) \<rightarrow> {data, error, isLoading}\<close>: it resolves to exactly
  one of \<open>data\<close> or \<open>error\<close>, and \<open>isLoading\<close> is true until that resolution. The argument
  is the promise of the fetch function: \<open>None\<close> while it has not settled.
\<close>

definition useQuery :: "(AxiosError + Todo list) option \<Rightarrow> query_result" where
  "useQuery p =
     (case p of
        None \<Rightarrow> \<lparr>data = None, error_q = None, isLoading = True\<rparr>
      | Some (Inr d) \<Rightarrow> \<lparr>data = Some d, error_q = None, isLoading = False\<rparr>
      | Some (Inl e) \<Rightarrow> \<lparr>data = None, error_q = Some e, isLoading = False\<rparr>)"

text \<open>
  The branch the body of \<open>RQuery\<close> takes. \<open>data?.map\<close> of an undefined \<open>data\<close> is
  \<open>undefined\<close>, which renders no entry.
\<close>

definition RQuery_view :: "query_result \<Rightarrow> view_state" where
  "RQuery_view q =
     (if isLoading q then Loading
      else case error_q q of
             Some e \<Rightarrow> Error (message e)
           | None \<Rightarrow> Success (case data q of None \<Rightarrow> [] | Some d \<Rightarrow> d))"

text \<open>What \<open>RQuery\<close> returns: an entry shows \<open>{item.id}) {item.title}\<close>, three children.\<close>

definition RQuery :: "query_result \<Rightarrow> vnode" where
  "RQuery q =
     (if isLoading q then Div [Text ''Loading...'']
      else case error_q q of
             Some e \<Rightarrow> Div [Text (message e)]
           | None \<Rightarrow>
               Section ''useEffect() vs React Query''
                 (case data q of
                    None \<Rightarrow> []
                  | Some d \<Rightarrow>
                      map (\<lambda>(idx, item). (idx, [Num (id_todo item), Text '') '', Text (title item)]))
                        (enumerate 0 d)))"

section \<open>The life of a UseEff instance\<close>

text \<open>
  An event of the component's life: it is activated (mounted), the request started by
  the instance of a given number settles, or it is deactivated (unmounted).
\<close>

datatype event = Activate | Settle nat settled | Deactivate

text \<open>
  The component and its surroundings. \<open>gen\<close> numbers the instances (0: none yet),
  \<open>cells\<close> are the state cells of the latest instance, \<open>mounted\<close> says whether it is still
  active, \<open>pending\<close> lists the instances whose request has not settled, \<open>requests\<close> counts
  the calls of \<open>axios.get\<close>, and \<open>history\<close> holds the cells at each render of the latest
  instance, oldest first.
\<close>

record world =
  gen :: nat
  cells :: UseEff_state
  mounted :: bool
  pending :: "nat list"
  requests :: nat
  history :: "UseEff_state list"

definition world0 :: world where
  "world0 = \<lparr>gen = 0, cells = UseEff_init, mounted = False, pending = [], requests = 0,
     history = []\<rparr>"

text \<open>
  The states after each of a sequence of setter calls, and the renders they cause: one
  render after the last call when the framework batches the calls made in one turn of
  the event loop, one after every call when it does not.
\<close>

fun after_each :: "setter list \<Rightarrow> UseEff_state \<Rightarrow> UseEff_state list" where
  "after_each [] s = []"
| "after_each (c # cs) s = apply_setter c s # after_each cs (apply_setter c s)"

definition renders :: "bool \<Rightarrow> setter list \<Rightarrow> UseEff_state \<Rightarrow> UseEff_state list" where
  "renders batched cs s =
     (if batched then (if cs = [] then [] else [last (after_each cs s)]) else after_each cs s)"

text \<open>
  Modelled from the spec: what the framework does with the setter calls of an instance
  (the state dispatcher of React is not part of the repository). For an active instance
  the calls are applied in order. For a deactivated one, section 5 of the specification:
  `if the component deactivates before the fetch resolves, the resolution is simply
  ignored'; the code of \<open>fetchTodos\<close> has no guard of its own.
\<close>

definition dispatch :: "bool \<Rightarrow> setter list \<Rightarrow> UseEff_state \<Rightarrow> UseEff_state" where
  "dispatch active cs s = (if active then foldl (\<lambda>s c. apply_setter c s) s cs else s)"

text \<open>
  When the framework runs an effect after a render, as the repository's notes on
  \<open>useEffect\<close> describe it: after the first render of an instance always; after a later
  render always when the effect has no dependency array, and otherwise when the values
  in the array have changed. The second argument is the array of the previous render,
  \<open>None\<close> at the first render.
\<close>

fun useEffect_runs :: "'d list option \<Rightarrow> 'd list option option \<Rightarrow> bool" where
  "useEffect_runs deps None = True"
| "useEffect_runs None (Some prev) = True"
| "useEffect_runs (Some ds) (Some prev) = (Some ds \<noteq> prev)"

text \<open>The dependency array of the effect of \<open>UseEff\<close>: the empty array, at every render.\<close>

definition effect_deps :: "unit list option" where
  "effect_deps = Some []"

text \<open>
  One event. Activation makes a new instance: the cells take the initial values of
  \<open>useState\<close>, the first render happens, and the effect runs and calls \<open>fetchTodos\<close>,
  which starts one request. A request settles at most once; its continuation is
  \<open>UseEff_fetchTodos\<close>, whose setter calls belong to the instance that started it. Every
  render they cause is followed by the effect again if \<open>useEffect_runs\<close> says so, and
  each such run starts one more request of that instance.
\<close>

definition step :: "bool \<Rightarrow> event \<Rightarrow> world \<Rightarrow> world" where
  "step batched e w =
     (case e of
        Activate \<Rightarrow>
          (let n = (if useEffect_runs effect_deps None then 1 else 0) in
           \<lparr>gen = Suc (gen w), cells = UseEff_init, mounted = True,
            pending = replicate n (Suc (gen w)) @ pending w, requests = requests w + n,
            history = [UseEff_init]\<rparr>)
      | Deactivate \<Rightarrow> w\<lparr>mounted := False\<rparr>
      | Settle g r \<Rightarrow>
          (if g \<in> set (pending w) then
             (case UseEff_fetchTodos r of
                Inl err \<Rightarrow> w\<lparr>pending := removeAll g (pending w)\<rparr>
              | Inr cs \<Rightarrow>
                  (let active = (g = gen w \<and> mounted w);
                       shown = (if active then renders batched cs (cells w) else []);
                       n = (if useEffect_runs effect_deps (Some effect_deps)
                            then length shown else 0) in
                   w\<lparr>cells := dispatch active cs (cells w),
                     pending := replicate n g @ removeAll g (pending w),
                     requests := requests w + n,
                     history := history w @ shown\<rparr>))
           else w))"

definition run :: "bool \<Rightarrow> event list \<Rightarrow> world \<Rightarrow> world" where
  "run batched es w = foldl (\<lambda>w e. step batched e w) w es"

text \<open>What is on the screen: the latest render of an active instance, nothing otherwise.\<close>

definition screen :: "world \<Rightarrow> vnode option" where
  "screen w = (if mounted w then Some (UseEff (cells w)) else None)"

text \<open>The view states the renderer has shown for the latest instance, oldest first.\<close>

definition visits :: "world \<Rightarrow> view_state list" where
  "visits w = map UseEff_view (history w)"

text \<open>The entries of a rendered list; the two \<open>div\<close>s without a list have none.\<close>

fun entries :: "vnode \<Rightarrow> (nat \<times> jsx_child list) list" where
  "entries (Section h es) = es"
| "entries (Div cs) = []"

section \<open>Auxiliary notions for the proofs\<close>

text \<open>
  The cells of an active instance once its request has settled, and the cells it shows
  in between when the two setter calls are rendered one by one.
\<close>

definition final :: "settled \<Rightarrow> UseEff_state" where
  "final r =
     (case r of
        Fulfilled d \<Rightarrow> \<lparr>todos = d, loading = False, error = None\<rparr>
      | Rejected e \<Rightarrow> \<lparr>todos = [], loading = False, error = Some e\<rparr>)"

definition seen :: "bool \<Rightarrow> settled \<Rightarrow> UseEff_state list" where
  "seen b r =
     (case r of
        Fulfilled d \<Rightarrow> (if b then [] else [\<lparr>todos = d, loading = True, error = None\<rparr>])
      | Rejected e \<Rightarrow> (if b then [] else [\<lparr>todos = [], loading = True, error = Some e\<rparr>]))"

text \<open>
  The invariant of every run: no request is numbered beyond the latest instance, and the
  latest instance is absent, or still in its initial state, or has settled while active.
\<close>

definition attempt_inv :: "bool \<Rightarrow> world \<Rightarrow> bool" where
  "attempt_inv b w \<longleftrightarrow>
     (\<forall>g\<in>set (pending w). g \<le> gen w) \<and>
     ((gen w = 0 \<and> pending w = [] \<and> cells w = UseEff_init \<and> history w = []) \<or>
      (0 < gen w \<and> cells w = UseEff_init \<and> history w = [UseEff_init]) \<or>
      (0 < gen w \<and> gen w \<notin> set (pending w) \<and>
       (\<exists>r. cells w = final r \<and> history w = UseEff_init # seen b r @ [final r])))"

section \<open>Basic facts\<close>

lemma map_snd_comp: "map (\<lambda>x. f (snd x)) ys = map f (map snd ys)"
  by (induction ys) simp_all

lemma keys_enumerate: "map fst (map (\<lambda>(i, x). (i, f x)) (enumerate 0 xs)) = [0..<length xs]"
  by (simp add: enumerate_eq_zip map_fst_zip_take case_prod_unfold comp_def)

lemma contents_enumerate: "map snd (map (\<lambda>(i, x). (i, f x)) (enumerate 0 xs)) = map f xs"
proof -
  have "map snd (map (\<lambda>(i, x). (i, f x)) (enumerate 0 xs)) =
        map (\<lambda>x. f (snd x)) (enumerate 0 xs)"
    by (simp add: case_prod_unfold comp_def)
  also have "\<dots> = map f (map snd (enumerate 0 xs))" by (rule map_snd_comp)
  also have "\<dots> = map f xs" by (simp only: map_snd_enumerate)
  finally show ?thesis .
qed

lemma run_Nil: "run b [] w = w"
  by (simp add: run_def)

lemma run_Cons: "run b (e # es) w = run b es (step b e w)"
  by (simp add: run_def)

lemma run_append: "run b (es @ es') w = run b es' (run b es w)"
  by (simp add: run_def)

lemma fetchTodos_Fulfilled:
  "UseEff_fetchTodos (Fulfilled d) = Inr [setTodos d, setLoading False]"
  by (simp add: UseEff_fetchTodos_def)

lemma fetchTodos_Rejected:
  "UseEff_fetchTodos (Rejected e) = Inr [setError (Some e), setLoading False]"
  by (simp add: UseEff_fetchTodos_def)

lemma effect_once: "useEffect_runs effect_deps None"
  "\<not> useEffect_runs effect_deps (Some effect_deps)"
  by (simp_all add: effect_deps_def)

lemma step_Activate:
  "step b Activate w =
     \<lparr>gen = Suc (gen w), cells = UseEff_init, mounted = True,
      pending = Suc (gen w) # pending w, requests = Suc (requests w),
      history = [UseEff_init]\<rparr>"
  by (simp add: step_def effect_once)

lemma step_Deactivate: "step b Deactivate w = w\<lparr>mounted := False\<rparr>"
  by (simp add: step_def)

lemma step_Settle_gone: "g \<notin> set (pending w) \<Longrightarrow> step b (Settle g r) w = w"
  by (simp add: step_def)

lemma step_Settle_late:
  "g \<in> set (pending w) \<Longrightarrow> \<not> (g = gen w \<and> mounted w) \<Longrightarrow>
   step b (Settle g r) w = w\<lparr>pending := removeAll g (pending w)\<rparr>"
  by (cases r)
    (auto simp add: step_def fetchTodos_Fulfilled fetchTodos_Rejected dispatch_def effect_once)

lemma step_Settle_active:
  "gen w \<in> set (pending w) \<Longrightarrow> mounted w \<Longrightarrow> cells w = UseEff_init \<Longrightarrow>
   step b (Settle (gen w) r) w =
     w\<lparr>cells := final r, pending := removeAll (gen w) (pending w),
       history := history w @ seen b r @ [final r]\<rparr>"
  by (cases r)
    (simp_all add: step_def fetchTodos_Fulfilled fetchTodos_Rejected dispatch_def renders_def
      final_def seen_def UseEff_init_def effect_once)

subsection \<open>The invariant holds in every run\<close>

lemma inv_world0: "attempt_inv b world0"
  by (simp add: attempt_inv_def world0_def)

lemma inv_step:
  assumes inv: "attempt_inv b w"
  shows "attempt_inv b (step b e w)"
proof (cases e)
  case Activate
  from inv show ?thesis unfolding Activate step_Activate attempt_inv_def by auto
next
  case Deactivate
  from inv show ?thesis unfolding Deactivate step_Deactivate attempt_inv_def by simp
next
  case (Settle g r)
  show ?thesis
  proof (cases "g \<in> set (pending w)")
    case False
    then show ?thesis using inv by (simp add: Settle step_Settle_gone)
  next
    case inflight: True
    show ?thesis
    proof (cases "g = gen w \<and> mounted w")
      case False
      then show ?thesis using inv inflight unfolding Settle
        by (auto simp add: step_Settle_late attempt_inv_def)
    next
      case active: True
      with inflight inv have c: "cells w = UseEff_init" and h: "history w = [UseEff_init]"
        and p: "0 < gen w"
        by (auto simp add: attempt_inv_def)
      from active inflight have
        "step b (Settle g r) w =
           w\<lparr>cells := final r, pending := removeAll (gen w) (pending w),
             history := history w @ seen b r @ [final r]\<rparr>"
        using step_Settle_active [of w b r] c by simp
      then show ?thesis using inv h p unfolding Settle
        by (auto simp add: attempt_inv_def)
    qed
  qed
qed

lemma inv_run: "attempt_inv b w \<Longrightarrow> attempt_inv b (run b es w)"
  by (induction es arbitrary: w) (simp_all add: run_Nil run_Cons inv_step)

lemma inv_reachable: "attempt_inv b (run b es world0)"
  by (rule inv_run [OF inv_world0])

lemma view_init: "UseEff_view UseEff_init = Loading"
  by (simp add: UseEff_view_def UseEff_init_def)

lemma view_final:
  "UseEff_view (final r) =
     (case r of Fulfilled d \<Rightarrow> Success d | Rejected e \<Rightarrow> Error (message e))"
  by (cases r) (simp_all add: UseEff_view_def final_def)

lemma view_seen: "s \<in> set (seen b r) \<Longrightarrow> UseEff_view s = Loading"
  by (cases r; cases b) (simp_all add: seen_def UseEff_view_def)

lemma fetchTodos_fulfils: "\<exists>cs. UseEff_fetchTodos r = Inr cs"
  by (cases r) (simp_all add: fetchTodos_Fulfilled fetchTodos_Rejected)

section \<open>Deactivation\<close>

lemma step_unmounted:
  assumes "\<not> mounted w" and "e \<noteq> Activate"
  shows "cells (step b e w) = cells w \<and> history (step b e w) = history w \<and>
         \<not> mounted (step b e w)"
proof (cases e)
  case Activate
  with assms show ?thesis by simp
next
  case Deactivate
  with assms show ?thesis by (simp add: step_Deactivate)
next
  case (Settle g r)
  show ?thesis
  proof (cases "g \<in> set (pending w)")
    case True
    with assms show ?thesis unfolding Settle by (simp add: step_Settle_late)
  next
    case False
    with assms show ?thesis unfolding Settle by (simp add: step_Settle_gone)
  qed
qed

lemma run_unmounted:
  "\<not> mounted w \<Longrightarrow> Activate \<notin> set es \<Longrightarrow>
   cells (run b es w) = cells w \<and> history (run b es w) = history w \<and> \<not> mounted (run b es w)"
proof (induction es arbitrary: w)
  case Nil
  then show ?case by (simp add: run_Nil)
next
  case (Cons e es)
  from Cons.prems have e: "e \<noteq> Activate" and es: "Activate \<notin> set es" by auto
  from step_unmounted [OF Cons.prems(1) e, of b]
  have s: "cells (step b e w) = cells w" "history (step b e w) = history w"
    "\<not> mounted (step b e w)"
    by simp_all
  from Cons.IH [OF s(3) es] s show ?case by (simp add: run_Cons)
qed

text \<open>
  Claim C1. When the component is deactivated while it shows \<open>Loading\<close>, nothing that
  happens to that instance afterwards changes its state: whatever requests settle later,
  the cells stay as they were at deactivation, no further render happens, nothing is on
  the screen, and the continuation of \<open>fetchTodos\<close> itself never ends in a rejection.
  The code of \<open>fetchTodos\<close> has no guard; the late setter calls are dropped by the
  framework, as \<open>dispatch\<close> says.
\<close>

theorem late_resolution_ignored:
  assumes "UseEff_view (cells w) = Loading" and "Activate \<notin> set es"
  shows "cells (run b es (step b Deactivate w)) = cells w \<and>
         history (run b es (step b Deactivate w)) = history w \<and>
         screen (run b es (step b Deactivate w)) = None \<and>
         (\<forall>r. \<exists>cs. UseEff_fetchTodos r = Inr cs)"
proof -
  have d: "\<not> mounted (step b Deactivate w)" "cells (step b Deactivate w) = cells w"
    "history (step b Deactivate w) = history w"
    by (simp_all add: step_Deactivate)
  from run_unmounted [OF d(1) assms(2), of b] d
  have "cells (run b es (step b Deactivate w)) = cells w"
    "history (run b es (step b Deactivate w)) = history w"
    "screen (run b es (step b Deactivate w)) = None"
    by (simp_all add: screen_def)
  then show ?thesis using fetchTodos_fulfils by simp
qed

text \<open>
  The instance is activated, deactivated while its request is in flight, and the request
  then settles with one item.
\<close>

theorem late_resolution_ignored_witness:
  "UseEff_view (cells (step False Activate world0)) = Loading \<and>
   Activate \<notin> set [Settle 1 (Fulfilled
     [\<lparr>userId = 1, id_todo = 1, title = ''A'', completed = False\<rparr>])] \<and>
   gen (step False Activate world0) \<in> set (pending (step False Activate world0)) \<and>
   cells (run False [Settle 1 (Fulfilled
     [\<lparr>userId = 1, id_todo = 1, title = ''A'', completed = False\<rparr>])]
       (step False Deactivate (step False Activate world0))) = UseEff_init \<and>
   screen (run False [Settle 1 (Fulfilled
     [\<lparr>userId = 1, id_todo = 1, title = ''A'', completed = False\<rparr>])]
       (step False Deactivate (step False Activate world0))) = None"
  using late_resolution_ignored [of "step False Activate world0"
      "[Settle 1 (Fulfilled [\<lparr>userId = 1, id_todo = 1, title = ''A'', completed = False\<rparr>])]"
      False]
  by (simp add: step_Activate world0_def view_init)

section \<open>One fetch attempt\<close>

lemma views_seen: "map UseEff_view (seen b r) = (if b then [] else [Loading])"
  by (cases r) (simp_all add: seen_def UseEff_view_def)

lemma visits_cases:
  assumes "attempt_inv b w" and "0 < gen w"
  shows "visits w = [Loading] \<or> visits w = [Loading, Loading] \<or>
         (\<exists>d. visits w = [Loading, Success d]) \<or>
         (\<exists>d. visits w = [Loading, Loading, Success d]) \<or>
         (\<exists>m. visits w = [Loading, Error m]) \<or>
         (\<exists>m. visits w = [Loading, Loading, Error m])"
proof -
  from assms consider
    (fresh) "history w = [UseEff_init]"
  | (finished) r where "history w = UseEff_init # seen b r @ [final r]"
    by (auto simp add: attempt_inv_def)
  then show ?thesis
  proof cases
    case fresh
    then show ?thesis by (simp add: visits_def view_init)
  next
    case finished
    then show ?thesis
      by (cases r; cases b) (simp_all add: visits_def view_init view_final views_seen)
  qed
qed

lemma step_Settle_new:
  "step b (Settle (gen (step b Activate w)) r) (step b Activate w) =
     (step b Activate w)\<lparr>cells := final r, pending := removeAll (Suc (gen w)) (pending w),
       history := UseEff_init # seen b r @ [final r]\<rparr>"
proof -
  let ?w = "step b Activate w"
  have "gen ?w \<in> set (pending ?w)" "mounted ?w" "cells ?w = UseEff_init"
    by (simp_all add: step_Activate)
  from step_Settle_active [OF this, of b r] show ?thesis by (simp add: step_Activate)
qed

text \<open>
  Claim C2. In every run, once the component has been activated, the view states shown
  for the latest attempt start with \<open>Loading\<close>, every state other than \<open>Loading\<close> has a
  \<open>Loading\<close> before it, and \<open>Success\<close> and \<open>Error\<close> are never both among them. This holds
  whether the framework renders after each setter call or once for both.
\<close>

theorem loading_before_terminal:
  fixes b es
  defines "w \<equiv> run b es world0"
  assumes "0 < gen w"
  shows "visits w \<noteq> [] \<and> hd (visits w) = Loading \<and>
         (\<forall>i<length (visits w). visits w ! i \<noteq> Loading \<longrightarrow>
            (\<exists>j<i. visits w ! j = Loading)) \<and>
         \<not> (\<exists>d m. Success d \<in> set (visits w) \<and> Error m \<in> set (visits w))"
proof -
  have inv: "attempt_inv b w" unfolding w_def by (rule inv_reachable)
  note c = visits_cases [OF inv assms(2)]
  from c have ne: "visits w \<noteq> []" and h: "hd (visits w) = Loading" by auto
  have pre: "\<exists>j<i. visits w ! j = Loading"
    if "i < length (visits w)" "visits w ! i \<noteq> Loading" for i
  proof -
    from ne h have z: "visits w ! 0 = Loading" by (simp add: hd_conv_nth)
    with that have "i \<noteq> 0" by (cases i) auto
    with z show ?thesis by auto
  qed
  from c have "\<not> (\<exists>d m. Success d \<in> set (visits w) \<and> Error m \<in> set (visits w))" by auto
  with ne h pre show ?thesis by blast
qed

text \<open>An attempt that fails, rendered after each setter call.\<close>

theorem loading_before_terminal_witness:
  "0 < gen (run False [Activate, Settle 1 (Rejected \<lparr>message = ''Network Error''\<rparr>)] world0) \<and>
   visits (run False [Activate, Settle 1 (Rejected \<lparr>message = ''Network Error''\<rparr>)] world0) =
     [Loading, Loading, Error ''Network Error''] \<and>
   hd (visits (run False [Activate, Settle 1 (Rejected \<lparr>message = ''Network Error''\<rparr>)]
     world0)) = Loading"
  using loading_before_terminal
    [of False "[Activate, Settle 1 (Rejected \<lparr>message = ''Network Error''\<rparr>)]"]
  by (simp add: run_def step_def world0_def UseEff_fetchTodos_def dispatch_def renders_def
      visits_def UseEff_view_def UseEff_init_def effect_deps_def)

section \<open>Rendering the list\<close>

text \<open>
  Claim C3. When the request of an active instance is fulfilled with a list of items,
  \<open>UseEff\<close> is in the state \<open>Success\<close> with these items and what is on the screen is the
  list: as many entries as items, the keys are the indices 0, 1, ... and so distinct,
  and the entries show the titles of the items in the order of the items. The same holds
  for \<open>RQuery\<close> on the result of the query, where an entry shows the id and the title.
\<close>

theorem rendered_list_matches_items:
  fixes b w items
  defines "w' \<equiv> step b (Settle (gen (step b Activate w)) (Fulfilled items)) (step b Activate w)"
  defines "q \<equiv> useQuery (Some (RQuery_fetchTodos (Fulfilled items)))"
  shows "UseEff_view (cells w') = Success items \<and>
         screen w' = Some (UseEff (cells w')) \<and>
         UseEff (cells w') = Section ''useEffect() vs React Query'' (entries (UseEff (cells w'))) \<and>
         length (entries (UseEff (cells w'))) = length items \<and>
         map fst (entries (UseEff (cells w'))) = [0..<length items] \<and>
         distinct (map fst (entries (UseEff (cells w')))) \<and>
         map snd (entries (UseEff (cells w'))) = map (\<lambda>item. [Text (title item)]) items \<and>
         RQuery_view q = Success items \<and>
         RQuery q = Section ''useEffect() vs React Query'' (entries (RQuery q)) \<and>
         length (entries (RQuery q)) = length items \<and>
         map fst (entries (RQuery q)) = [0..<length items] \<and>
         distinct (map fst (entries (RQuery q))) \<and>
         map snd (entries (RQuery q)) =
           map (\<lambda>item. [Num (id_todo item), Text '') '', Text (title item)]) items"
proof -
  have c: "cells w' = \<lparr>todos = items, loading = False, error = None\<rparr>" and m: "mounted w'"
    unfolding w'_def step_Settle_new by (simp_all add: final_def step_Activate)
  have u: "UseEff (cells w') = Section ''useEffect() vs React Query''
      (map (\<lambda>(id, item). (id, [Text (title item)])) (enumerate 0 items))"
    by (simp add: c UseEff_def)
  have qv: "q = \<lparr>data = Some items, error_q = None, isLoading = False\<rparr>"
    by (simp add: q_def useQuery_def RQuery_fetchTodos_def)
  have r: "RQuery q = Section ''useEffect() vs React Query''
      (map (\<lambda>(idx, item). (idx, [Num (id_todo item), Text '') '', Text (title item)]))
        (enumerate 0 items))"
    by (simp add: qv RQuery_def)
  have k: "map fst (entries (UseEff (cells w'))) = [0..<length items]"
    unfolding u entries.simps by (rule keys_enumerate)
  have k': "map fst (entries (RQuery q)) = [0..<length items]"
    unfolding r entries.simps by (rule keys_enumerate)
  have t: "map snd (entries (UseEff (cells w'))) = map (\<lambda>item. [Text (title item)]) items"
    unfolding u entries.simps by (rule contents_enumerate)
  have t': "map snd (entries (RQuery q)) =
      map (\<lambda>item. [Num (id_todo item), Text '') '', Text (title item)]) items"
    unfolding r entries.simps by (rule contents_enumerate)
  have v: "UseEff_view (cells w') = Success items" by (simp add: c UseEff_view_def)
  have v': "RQuery_view q = Success items" by (simp add: qv RQuery_view_def)
  have s: "screen w' = Some (UseEff (cells w'))" using m by (simp add: screen_def)
  have l: "length (entries (UseEff (cells w'))) = length items" by (simp add: u)
  have l': "length (entries (RQuery q)) = length items" by (simp add: r)
  have d: "distinct (map fst (entries (UseEff (cells w'))))" by (simp add: k)
  have d': "distinct (map fst (entries (RQuery q)))" by (simp add: k')
  have e: "UseEff (cells w') =
      Section ''useEffect() vs React Query'' (entries (UseEff (cells w')))"
    by (simp add: u)
  have e': "RQuery q = Section ''useEffect() vs React Query'' (entries (RQuery q))"
    by (simp add: r)
  from v s e l k d t v' e' l' k' d' t' show ?thesis by simp
qed

text \<open>
  The scenario of the specification: two items, \<open>A\<close> (not completed) and \<open>B\<close> (completed).
\<close>

theorem rendered_list_matches_items_witness:
  "UseEff_view (cells (step True (Settle (gen (step True Activate world0)) (Fulfilled
     [\<lparr>userId = 1, id_todo = 1, title = ''A'', completed = False\<rparr>,
      \<lparr>userId = 1, id_todo = 2, title = ''B'', completed = True\<rparr>]))
     (step True Activate world0))) =
   Success [\<lparr>userId = 1, id_todo = 1, title = ''A'', completed = False\<rparr>,
            \<lparr>userId = 1, id_todo = 2, title = ''B'', completed = True\<rparr>] \<and>
   entries (UseEff (cells (step True (Settle (gen (step True Activate world0)) (Fulfilled
     [\<lparr>userId = 1, id_todo = 1, title = ''A'', completed = False\<rparr>,
      \<lparr>userId = 1, id_todo = 2, title = ''B'', completed = True\<rparr>]))
     (step True Activate world0)))) = [(0, [Text ''A'']), (1, [Text ''B''])] \<and>
   entries (RQuery (useQuery (Some (RQuery_fetchTodos (Fulfilled
     [\<lparr>userId = 1, id_todo = 1, title = ''A'', completed = False\<rparr>,
      \<lparr>userId = 1, id_todo = 2, title = ''B'', completed = True\<rparr>]))))) =
   [(0, [Num 1, Text '') '', Text ''A'']), (1, [Num 2, Text '') '', Text ''B''])]"
  using rendered_list_matches_items [of True world0
      "[\<lparr>userId = 1, id_todo = 1, title = ''A'', completed = False\<rparr>,
        \<lparr>userId = 1, id_todo = 2, title = ''B'', completed = True\<rparr>]"]
  by (simp add: step_Settle_new final_def UseEff_def RQuery_def useQuery_def
      RQuery_fetchTodos_def enumerate_eq_zip upt_rec)

section \<open>A failing request\<close>

lemma final_atomic: "error (final r) \<noteq> None \<Longrightarrow> todos (final r) = []"
  by (cases r) (simp_all add: final_def)

lemma seen_atomic: "s \<in> set (seen b r) \<Longrightarrow> error s \<noteq> None \<Longrightarrow> todos s = []"
  by (cases r; cases b) (simp_all add: seen_def)

lemma init_atomic: "todos UseEff_init = []"
  by (simp add: UseEff_init_def)

text \<open>
  Claim C10. In \<open>UseEff\<close> a failed attempt stores no items. In every run, cells that hold
  an error hold the empty list of items, and so does every state that was rendered; the
  \<open>catch\<close> branch calls \<open>setError\<close> and \<open>setLoading\<close> only, so an attempt that fails ends
  with the initial empty list.
\<close>

theorem failed_attempt_stores_no_items:
  fixes b es e w0
  defines "w \<equiv> run b es world0"
  defines "w' \<equiv> step b (Settle (gen (step b Activate w0)) (Rejected e)) (step b Activate w0)"
  shows "(error (cells w) \<noteq> None \<longrightarrow> todos (cells w) = []) \<and>
         (\<forall>s\<in>set (history w). error s \<noteq> None \<longrightarrow> todos s = []) \<and>
         UseEff_fetchTodos (Rejected e) = Inr [setError (Some e), setLoading False] \<and>
         cells w' = \<lparr>todos = [], loading = False, error = Some e\<rparr> \<and>
         (\<forall>s\<in>set (history w'). todos s = [])"
proof -
  have inv: "attempt_inv b w" unfolding w_def by (rule inv_reachable)
  then consider
    (fresh) "cells w = UseEff_init" "set (history w) \<subseteq> {UseEff_init}"
  | (finished) r where "cells w = final r" "history w = UseEff_init # seen b r @ [final r]"
    by (auto simp add: attempt_inv_def)
  then have a: "(error (cells w) \<noteq> None \<longrightarrow> todos (cells w) = []) \<and>
         (\<forall>s\<in>set (history w). error s \<noteq> None \<longrightarrow> todos s = [])"
  proof cases
    case fresh
    then show ?thesis using init_atomic by auto
  next
    case finished
    then show ?thesis using init_atomic final_atomic seen_atomic by auto
  qed
  have c: "cells w' = \<lparr>todos = [], loading = False, error = Some e\<rparr>"
    unfolding w'_def step_Settle_new by (simp add: final_def)
  have h: "\<forall>s\<in>set (history w'). todos s = []"
    unfolding w'_def step_Settle_new by (cases b) (simp_all add: final_def seen_def init_atomic)
  from a c h fetchTodos_Rejected show ?thesis by simp
qed

text \<open>An attempt that fails with a transport error.\<close>

theorem failed_attempt_stores_no_items_witness:
  "cells (run False [Activate, Settle 1 (Rejected \<lparr>message = ''Network Error''\<rparr>)] world0) =
     \<lparr>todos = [], loading = False, error = Some \<lparr>message = ''Network Error''\<rparr>\<rparr> \<and>
   error (cells (run False [Activate, Settle 1 (Rejected \<lparr>message = ''Network Error''\<rparr>)]
     world0)) \<noteq> None \<and>
   todos (cells (run False [Activate, Settle 1 (Rejected \<lparr>message = ''Network Error''\<rparr>)]
     world0)) = []"
  using failed_attempt_stores_no_items
    [of False "[Activate, Settle 1 (Rejected \<lparr>message = ''Network Error''\<rparr>)]"]
  by (simp add: run_def step_def world0_def UseEff_fetchTodos_def dispatch_def UseEff_init_def
      effect_deps_def renders_def)

text \<open>
  Claim C8. The promise of \<open>fetchTodos\<close> in \<open>UseEff\<close> never rejects, whatever the request
  does: a rejected request is caught and becomes the setter calls that store the error,
  after which the component is in the state \<open>Error\<close> and shows the message. In \<open>RQuery\<close>
  the rejection leaves \<open>fetchTodos\<close> and reaches \<open>useQuery\<close>, which hands it to the
  component as the field \<open>error\<close>; the component shows the message in the same way.
\<close>

theorem failure_is_data:
  fixes b w e
  defines "w' \<equiv> step b (Settle (gen (step b Activate w)) (Rejected e)) (step b Activate w)"
  defines "q \<equiv> useQuery (Some (RQuery_fetchTodos (Rejected e)))"
  shows "(\<forall>r. \<exists>cs. UseEff_fetchTodos r = Inr cs) \<and>
         UseEff_fetchTodos (Rejected e) = Inr [setError (Some e), setLoading False] \<and>
         error (cells w') = Some e \<and>
         UseEff_view (cells w') = Error (message e) \<and>
         screen w' = Some (Div [Text (message e)]) \<and>
         RQuery_fetchTodos (Rejected e) = Inl e \<and>
         error_q q = Some e \<and>
         RQuery_view q = Error (message e) \<and>
         RQuery q = Div [Text (message e)]"
proof -
  have c: "cells w' = \<lparr>todos = [], loading = False, error = Some e\<rparr>" and m: "mounted w'"
    unfolding w'_def step_Settle_new by (simp_all add: final_def step_Activate)
  have u: "error (cells w') = Some e" "UseEff_view (cells w') = Error (message e)"
    "screen w' = Some (Div [Text (message e)])"
    using m by (simp_all add: c UseEff_view_def screen_def UseEff_def)
  have qv: "q = \<lparr>data = None, error_q = Some e, isLoading = False\<rparr>"
    by (simp add: q_def useQuery_def RQuery_fetchTodos_def)
  have r: "RQuery_fetchTodos (Rejected e) = Inl e" "error_q q = Some e"
    "RQuery_view q = Error (message e)" "RQuery q = Div [Text (message e)]"
    by (simp_all add: qv RQuery_view_def RQuery_def RQuery_fetchTodos_def)
  from u r fetchTodos_Rejected fetchTodos_fulfils show ?thesis by simp
qed

text \<open>
  Claim C4 as it is stated fails: the message of the \<open>Error\<close> state need not be
  non-empty. A request rejected with an error whose message is the empty string ends in
  \<open>Error\<close> with the empty message, and an empty \<open>div\<close> is on the screen.
\<close>

theorem error_message_may_be_empty:
  "UseEff_view (cells (run False [Activate, Settle 1 (Rejected \<lparr>message = []\<rparr>)] world0)) = Error [] \<and>
   screen (run False [Activate, Settle 1 (Rejected \<lparr>message = []\<rparr>)] world0) = Some (Div [Text []])"
  by (simp add: run_def step_def world0_def UseEff_fetchTodos_def dispatch_def UseEff_init_def
      UseEff_view_def renders_def screen_def UseEff_def effect_deps_def)

text \<open>
  Claim C4, amended. When the request of an attempt is rejected, the attempt ends in
  \<open>Error\<close> carrying the message of the error as it is, so a non-empty one when the error
  has a non-empty message; it is the message that is on the screen; no state rendered in
  the attempt is \<open>Success\<close> and none renders the list. \<open>RQuery\<close> on the result of the query
  does the same.
\<close>

theorem failed_fetch_shows_its_message:
  fixes b w e
  defines "w' \<equiv> step b (Settle (gen (step b Activate w)) (Rejected e)) (step b Activate w)"
  defines "q \<equiv> useQuery (Some (RQuery_fetchTodos (Rejected e)))"
  shows "UseEff_view (cells w') = Error (message e) \<and>
         screen w' = Some (Div [Text (message e)]) \<and>
         (message e \<noteq> [] \<longrightarrow> (\<exists>m. UseEff_view (cells w') = Error m \<and> m \<noteq> [])) \<and>
         (\<forall>s\<in>set (history w'). \<not> is_Success (UseEff_view s) \<and> (\<forall>h es. UseEff s \<noteq> Section h es)) \<and>
         RQuery_view q = Error (message e) \<and>
         RQuery q = Div [Text (message e)] \<and>
         (\<forall>h es. RQuery q \<noteq> Section h es)"
proof -
  have c: "cells w' = \<lparr>todos = [], loading = False, error = Some e\<rparr>" and m: "mounted w'"
    and h: "history w' = UseEff_init # seen b (Rejected e) @ [final (Rejected e)]"
    unfolding w'_def step_Settle_new by (simp_all add: final_def step_Activate)
  have u: "UseEff_view (cells w') = Error (message e)"
    "screen w' = Some (Div [Text (message e)])"
    using m by (simp_all add: c UseEff_view_def screen_def UseEff_def)
  have n: "\<forall>s\<in>set (history w'). \<not> is_Success (UseEff_view s) \<and> (\<forall>h es. UseEff s \<noteq> Section h es)"
    unfolding h by (cases b) (simp_all add: seen_def final_def UseEff_init_def UseEff_view_def UseEff_def)
  have qv: "q = \<lparr>data = None, error_q = Some e, isLoading = False\<rparr>"
    by (simp add: q_def useQuery_def RQuery_fetchTodos_def)
  have r: "RQuery_view q = Error (message e)" "RQuery q = Div [Text (message e)]"
    by (simp_all add: qv RQuery_view_def RQuery_def)
  from u n r show ?thesis by simp
qed

theorem failed_fetch_shows_its_message_witness:
  "message \<lparr>message = ''Network Error''\<rparr> \<noteq> [] \<and>
   UseEff_view (cells (step False (Settle (gen (step False Activate world0))
      (Rejected \<lparr>message = ''Network Error''\<rparr>)) (step False Activate world0))) =
     Error ''Network Error'' \<and>
   visits (step False (Settle (gen (step False Activate world0))
      (Rejected \<lparr>message = ''Network Error''\<rparr>)) (step False Activate world0)) =
     [Loading, Loading, Error ''Network Error'']"
  using failed_fetch_shows_its_message [of False world0 "\<lparr>message = ''Network Error''\<rparr>"]
  by (simp add: step_Settle_new visits_def seen_def final_def UseEff_init_def UseEff_view_def)

section \<open>States and transitions\<close>

lemma step_settled:
  assumes "gen w \<notin> set (pending w)" and "e \<noteq> Activate"
  shows "cells (step b e w) = cells w \<and> gen (step b e w) = gen w \<and>
         gen (step b e w) \<notin> set (pending (step b e w))"
proof (cases e)
  case Activate
  with assms show ?thesis by simp
next
  case Deactivate
  with assms show ?thesis by (simp add: step_Deactivate)
next
  case (Settle g r)
  show ?thesis
  proof (cases "g \<in> set (pending w)")
    case True
    with assms have "\<not> (g = gen w \<and> mounted w)" by auto
    with True assms show ?thesis unfolding Settle by (simp add: step_Settle_late)
  next
    case False
    with assms show ?thesis unfolding Settle by (simp add: step_Settle_gone)
  qed
qed

lemma run_settled:
  "gen w \<notin> set (pending w) \<Longrightarrow> Activate \<notin> set es \<Longrightarrow> cells (run b es w) = cells w"
proof (induction es arbitrary: w)
  case Nil
  then show ?case by (simp add: run_Nil)
next
  case (Cons e es)
  from Cons.prems have e: "e \<noteq> Activate" and es: "Activate \<notin> set es" by auto
  from step_settled [OF Cons.prems(1) e, of b]
  have s: "cells (step b e w) = cells w" "gen (step b e w) \<notin> set (pending (step b e w))"
    by blast+
  from Cons.IH [OF s(2) es] s(1) show ?case by (simp add: run_Cons)
qed

lemma exactly_one:
  "(is_Loading v \<and> \<not> is_Success v \<and> \<not> is_Error v) \<or>
   (\<not> is_Loading v \<and> is_Success v \<and> \<not> is_Error v) \<or>
   (\<not> is_Loading v \<and> \<not> is_Success v \<and> is_Error v)"
  by (cases v) simp_all

text \<open>
  Claim C5. In every run the view state is exactly one of \<open>Loading\<close>, \<open>Success\<close> and
  \<open>Error\<close>, and the cells are the initial ones, or hold data and no error, or hold an
  error and no data. Once the view state is not \<open>Loading\<close>, no sequence of events without
  a new activation changes the cells, so the terminal state of an attempt stays.
\<close>

theorem one_variant_and_monotonic:
  fixes b es
  defines "w \<equiv> run b es world0"
  shows "((is_Loading (UseEff_view (cells w)) \<and> \<not> is_Success (UseEff_view (cells w)) \<and>
            \<not> is_Error (UseEff_view (cells w))) \<or>
          (\<not> is_Loading (UseEff_view (cells w)) \<and> is_Success (UseEff_view (cells w)) \<and>
            \<not> is_Error (UseEff_view (cells w))) \<or>
          (\<not> is_Loading (UseEff_view (cells w)) \<and> \<not> is_Success (UseEff_view (cells w)) \<and>
            is_Error (UseEff_view (cells w)))) \<and>
         (cells w = UseEff_init \<or>
          (\<exists>d. cells w = \<lparr>todos = d, loading = False, error = None\<rparr>) \<or>
          (\<exists>e. cells w = \<lparr>todos = [], loading = False, error = Some e\<rparr>)) \<and>
         (\<forall>es'. \<not> is_Loading (UseEff_view (cells w)) \<longrightarrow> Activate \<notin> set es' \<longrightarrow>
            cells (run b es' w) = cells w \<and>
            UseEff_view (cells (run b es' w)) = UseEff_view (cells w))"
proof -
  have inv: "attempt_inv b w" unfolding w_def by (rule inv_reachable)
  then consider
    (fresh) "cells w = UseEff_init"
  | (finished) r where "cells w = final r" "gen w \<notin> set (pending w)"
    by (auto simp add: attempt_inv_def)
  then have shape: "cells w = UseEff_init \<or>
          (\<exists>d. cells w = \<lparr>todos = d, loading = False, error = None\<rparr>) \<or>
          (\<exists>e. cells w = \<lparr>todos = [], loading = False, error = Some e\<rparr>)"
  proof cases
    case fresh
    then show ?thesis by simp
  next
    case finished
    then show ?thesis by (cases r) (simp_all add: final_def)
  qed
  have mono: "cells (run b es' w) = cells w \<and>
            UseEff_view (cells (run b es' w)) = UseEff_view (cells w)"
    if t: "\<not> is_Loading (UseEff_view (cells w))" and n: "Activate \<notin> set es'" for es'
  proof -
    from inv t have "gen w \<notin> set (pending w)"
      by (auto simp add: attempt_inv_def view_init)
    from run_settled [OF this n, of b] show ?thesis by simp
  qed
  from exactly_one [of "UseEff_view (cells w)"] shape mono show ?thesis by blast
qed

text \<open>
  After a fulfilled request, a second settlement of the same request and a deactivation
  leave \<open>Success\<close> in place.
\<close>

theorem one_variant_and_monotonic_witness:
  "\<not> is_Loading (UseEff_view (cells (run True [Activate, Settle 1 (Fulfilled [])] world0))) \<and>
   Activate \<notin> set [Settle 1 (Rejected \<lparr>message = ''late''\<rparr>), Deactivate] \<and>
   UseEff_view (cells (run True [Settle 1 (Rejected \<lparr>message = ''late''\<rparr>), Deactivate]
     (run True [Activate, Settle 1 (Fulfilled [])] world0))) = Success []"
  using one_variant_and_monotonic [of True "[Activate, Settle 1 (Fulfilled [])]"]
  by (simp add: run_def step_def world0_def UseEff_fetchTodos_def dispatch_def UseEff_init_def
      UseEff_view_def renders_def effect_deps_def)

section \<open>Activation\<close>

lemma step_requests: "e \<noteq> Activate \<Longrightarrow> requests (step b e w) = requests w"
proof (cases e)
  case (Settle g r)
  show ?thesis unfolding Settle
    by (cases r)
      (simp_all add: step_def fetchTodos_Fulfilled fetchTodos_Rejected Let_def effect_once)
qed (simp_all add: step_Deactivate)

lemma run_requests: "Activate \<notin> set es \<Longrightarrow> requests (run b es w) = requests w"
  by (induction es arbitrary: w) (simp_all add: run_Nil run_Cons step_requests [OF not_sym])

lemma fresh_request:
  assumes "attempt_inv b w"
  shows "count_list (pending (step b Activate w)) (gen (step b Activate w)) = 1"
proof -
  from assms have "Suc (gen w) \<notin> set (pending w)" by (auto simp add: attempt_inv_def)
  then show ?thesis by (simp add: step_Activate count_list_0_iff)
qed

lemma UseEff_init_render: "UseEff UseEff_init = Div [Text ''Loading...'']"
  by (simp add: UseEff_def UseEff_init_def)

lemma step_Settle_other:
  "g \<noteq> gen w \<Longrightarrow> cells (step b (Settle g r) w) = cells w"
  by (cases "g \<in> set (pending w)") (simp_all add: step_Settle_late step_Settle_gone)

text \<open>
  Claim C7. In every run, activating the component shows \<open>Loading\<close> and starts exactly
  one request: the count of requests grows by one, the new instance has one request
  pending, and no later event other than an activation starts another, since the effect
  has an empty dependency array. When that request settles, the view state is \<open>Success\<close>
  with the data or \<open>Error\<close> with the message, and the request is pending no more.
\<close>

theorem activation_fetches_once:
  fixes b es r
  defines "w \<equiv> run b es world0"
  defines "w' \<equiv> step b Activate w"
  shows "UseEff_view (cells w') = Loading \<and>
         screen w' = Some (Div [Text ''Loading...'']) \<and>
         requests w' = Suc (requests w) \<and>
         count_list (pending w') (gen w') = 1 \<and>
         (\<forall>es'. Activate \<notin> set es' \<longrightarrow> requests (run b es' w') = requests w') \<and>
         UseEff_view (cells (step b (Settle (gen w') r) w')) =
           (case r of Fulfilled d \<Rightarrow> Success d | Rejected e \<Rightarrow> Error (message e)) \<and>
         gen w' \<notin> set (pending (step b (Settle (gen w') r) w'))"
proof -
  have inv: "attempt_inv b w" unfolding w_def by (rule inv_reachable)
  have a: "UseEff_view (cells w') = Loading" "screen w' = Some (Div [Text ''Loading...''])"
    "requests w' = Suc (requests w)"
    by (simp_all add: w'_def step_Activate view_init screen_def UseEff_init_render)
  have c: "count_list (pending w') (gen w') = 1"
    unfolding w'_def by (rule fresh_request [OF inv])
  have o: "\<forall>es'. Activate \<notin> set es' \<longrightarrow> requests (run b es' w') = requests w'"
    by (simp add: run_requests)
  have s: "UseEff_view (cells (step b (Settle (gen w') r) w')) =
           (case r of Fulfilled d \<Rightarrow> Success d | Rejected e \<Rightarrow> Error (message e))"
    unfolding w'_def step_Settle_new by (simp add: view_final)
  have p: "gen w' \<notin> set (pending (step b (Settle (gen w') r) w'))"
    unfolding w'_def step_Settle_new by (simp add: step_Activate)
  from a c o s p show ?thesis by simp
qed

text \<open>
  From the start: one activation, and then the request settling, settling once more and
  a deactivation leave the count of requests at one.
\<close>

theorem activation_fetches_once_witness:
  "Activate \<notin> set [Settle 1 (Fulfilled []), Settle 1 (Fulfilled []), Deactivate] \<and>
   requests (step True Activate (run True [] world0)) = 1 \<and>
   requests (run True [Settle 1 (Fulfilled []), Settle 1 (Fulfilled []), Deactivate]
     (step True Activate (run True [] world0))) = 1"
  using activation_fetches_once [of True "[]"]
  by (simp add: run_Nil step_Activate world0_def)

text \<open>
  Claim C6. In every run that has reached a terminal state, activating the component
  again gives the initial cells (no items, no error, \<open>Loading\<close>) and exactly one new
  request. A request of an earlier instance that settles now leaves the new cells
  untouched, and when the new request settles the cells hold what it brought and nothing
  else.
\<close>

theorem reactivation_starts_afresh:
  fixes b es
  defines "w \<equiv> run b es world0"
  defines "w' \<equiv> step b Activate w"
  assumes "\<not> is_Loading (UseEff_view (cells w))"
  shows "cells w' = UseEff_init \<and> todos (cells w') = [] \<and> error (cells w') = None \<and>
         UseEff_view (cells w') = Loading \<and> visits w' = [Loading] \<and>
         screen w' = Some (Div [Text ''Loading...'']) \<and>
         requests w' = Suc (requests w) \<and>
         count_list (pending w') (gen w') = 1 \<and>
         (\<forall>es'. Activate \<notin> set es' \<longrightarrow> requests (run b es' w') = Suc (requests w)) \<and>
         (\<forall>g r. g \<noteq> gen w' \<longrightarrow> cells (step b (Settle g r) w') = UseEff_init) \<and>
         (\<forall>d. cells (step b (Settle (gen w') (Fulfilled d)) w') =
            \<lparr>todos = d, loading = False, error = None\<rparr>) \<and>
         (\<forall>e. cells (step b (Settle (gen w') (Rejected e)) w') =
            \<lparr>todos = [], loading = False, error = Some e\<rparr>)"
proof -
  have inv: "attempt_inv b w" unfolding w_def by (rule inv_reachable)
  have a: "cells w' = UseEff_init" "todos (cells w') = []" "error (cells w') = None"
    "UseEff_view (cells w') = Loading" "visits w' = [Loading]"
    "screen w' = Some (Div [Text ''Loading...''])" "requests w' = Suc (requests w)"
    by (simp_all add: w'_def step_Activate view_init screen_def UseEff_init_render visits_def)
      (simp_all add: UseEff_init_def)
  have c: "count_list (pending w') (gen w') = 1"
    unfolding w'_def by (rule fresh_request [OF inv])
  have o: "\<forall>es'. Activate \<notin> set es' \<longrightarrow> requests (run b es' w') = Suc (requests w)"
    by (simp add: run_requests a(7))
  have l: "\<forall>g r. g \<noteq> gen w' \<longrightarrow> cells (step b (Settle g r) w') = UseEff_init"
    by (simp add: step_Settle_other a(1))
  have f: "\<forall>d. cells (step b (Settle (gen w') (Fulfilled d)) w') =
            \<lparr>todos = d, loading = False, error = None\<rparr>"
    unfolding w'_def step_Settle_new by (simp add: final_def)
  have r: "\<forall>e. cells (step b (Settle (gen w') (Rejected e)) w') =
            \<lparr>todos = [], loading = False, error = Some e\<rparr>"
    unfolding w'_def step_Settle_new by (simp add: final_def)
  from a c o l f r show ?thesis by simp
qed

text \<open>A second activation after a first attempt that succeeded with one item.\<close>

theorem reactivation_starts_afresh_witness:
  "\<not> is_Loading (UseEff_view (cells (run False [Activate, Settle 1 (Fulfilled
      [\<lparr>userId = 1, id_todo = 1, title = ''A'', completed = False\<rparr>])] world0))) \<and>
   cells (step False Activate (run False [Activate, Settle 1 (Fulfilled
      [\<lparr>userId = 1, id_todo = 1, title = ''A'', completed = False\<rparr>])] world0)) = UseEff_init \<and>
   requests (step False Activate (run False [Activate, Settle 1 (Fulfilled
      [\<lparr>userId = 1, id_todo = 1, title = ''A'', completed = False\<rparr>])] world0)) = 2"
  using reactivation_starts_afresh [of False "[Activate, Settle 1 (Fulfilled
      [\<lparr>userId = 1, id_todo = 1, title = ''A'', completed = False\<rparr>])]"]
  by (simp add: run_def step_def world0_def UseEff_fetchTodos_def dispatch_def UseEff_init_def
      UseEff_view_def renders_def effect_deps_def)

section \<open>The two components compared\<close>

text \<open>
  Claim C9. For every state of the request (not settled, fulfilled with a list, rejected
  with an error), \<open>RQuery\<close> on the result of the query and \<open>UseEff\<close> after activation and,
  if the request has settled, its settlement are in the same view state, with the same
  items or the same message.
\<close>

theorem views_agree:
  "RQuery_view (useQuery (map_option RQuery_fetchTodos p)) =
   UseEff_view (cells (run b (Activate # (case p of None \<Rightarrow> [] | Some r \<Rightarrow> [Settle 1 r])) world0))"
proof (cases p)
  case None
  then show ?thesis
    by (simp add: run_Cons run_Nil step_Activate view_init useQuery_def RQuery_view_def)
next
  case (Some r)
  have g: "gen (step b Activate world0) = 1" by (simp add: step_Activate world0_def)
  have "run b [Activate, Settle 1 r] world0 =
        step b (Settle (gen (step b Activate world0)) r) (step b Activate world0)"
    unfolding g by (simp add: run_Cons run_Nil)
  then have "UseEff_view (cells (run b [Activate, Settle 1 r] world0)) =
     (case r of Fulfilled d \<Rightarrow> Success d | Rejected e \<Rightarrow> Error (message e))"
    by (simp add: step_Settle_new view_final)
  moreover have "RQuery_view (useQuery (Some (RQuery_fetchTodos r))) =
     (case r of Fulfilled d \<Rightarrow> Success d | Rejected e \<Rightarrow> Error (message e))"
    by (cases r) (simp_all add: useQuery_def RQuery_view_def RQuery_fetchTodos_def)
  ultimately show ?thesis by (simp add: Some)
qed

end
